theory Spec2Isabelle
  imports Main "HOL-Library.Word"
begin

section \<open>Machine types\<close>

text \<open>
  The header \<^verbatim>\<open>xrandom.hpp\<close> is modelled for an LP64 platform:
  \<^verbatim>\<open>std::size_t\<close> is an unsigned 64-bit word, \<^verbatim>\<open>int\<close> a 32-bit word read in
  two's complement, \<^verbatim>\<open>long\<close> a signed 64-bit integer.  The cursor
  \<^verbatim>\<open>m_advance_state\<close> (a \<^verbatim>\<open>long\<close>) is modelled as an unbounded \<open>int\<close>;
  lemma \<open>reads_cursor_range\<close> below shows that it never leaves
  \<open>[-1, 2^31)\<close>, hence never overflows a \<^verbatim>\<open>long\<close>.
\<close>

type_synonym size_t = "64 word"
type_synonym c_int = "32 word"

section \<open>The engine and the distribution\<close>

text \<open>
  The engine type \<^verbatim>\<open>E\<close> and the distribution type \<^verbatim>\<open>D\<close> are template
  parameters whose code is the C++ standard library.  They are parameters
  of the model too: \<open>'e\<close> is the engine state, \<open>'d\<close> the distribution state,
  and the call \<^verbatim>\<open>m_dist(m_engine)\<close> is a function \<open>dist\<close> that returns the
  sample together with the updated distribution and engine;
  \<^verbatim>\<open>m_dist.reset()\<close> is a function \<open>reset\<close> on the distribution state.
\<close>

type_synonym ('d, 'e, 'v) dist_call = "'d \<Rightarrow> 'e \<Rightarrow> 'v \<times> 'd \<times> 'e"

section \<open>struct random\_impl\<close>

text \<open>
  The members of \<^verbatim>\<open>random_impl\<close>.  The shared string stream
  \<^verbatim>\<open>m_engine_state\<close> holds the serialised engine written by the constructor;
  reading it back with \<^verbatim>\<open>>>\<close> followed by \<^verbatim>\<open>seekg(0)\<close> leaves the stream as it
  was, so the member is modelled as the engine value it stores.
\<close>

record ('e, 'd) random_impl =
  m_engine :: 'e
  m_dist :: 'd
  m_strides :: "size_t list"
  m_engine_state :: 'e
  m_advance_state :: int

text \<open>
  The constructor's loop \<^verbatim>\<open>for (i = m_strides.size(); i != 0; --i)\<close>.  The
  counter of the model is the source's \<^verbatim>\<open>i\<close>; the body works on index
  \<^verbatim>\<open>i - 1\<close>, which is always in range of both vectors.
\<close>

fun strides_loop :: "nat \<Rightarrow> size_t list \<Rightarrow> size_t list \<Rightarrow> size_t \<Rightarrow> size_t list" where
  "strides_loop 0 shape strides data_size = strides"
| "strides_loop (Suc j) shape strides data_size =
     (let strides' = strides[j := data_size];
          data_size' = strides' ! j * shape ! j
      in strides_loop j shape strides' data_size')"

definition random_impl :: "'e \<Rightarrow> 'd \<Rightarrow> size_t list \<Rightarrow> ('e, 'd) random_impl" where
  "random_impl engine dist shape =
     \<lparr> m_engine = engine,
       m_dist = dist,
       m_strides = strides_loop (length shape) shape (replicate (length shape) 0) 1,
       m_engine_state = engine,
       m_advance_state = - 1 \<rparr>"

text \<open>
  \<^verbatim>\<open>std::inner_product(first, last, m_strides.begin(), 0)\<close>.  The accumulator
  has the type of the literal \<^verbatim>\<open>0\<close>, that is \<^verbatim>\<open>int\<close>.  Each step evaluates
  \<^verbatim>\<open>acc + (*first1) * (*first2)\<close> in \<^verbatim>\<open>std::size_t\<close> (the accumulator is
  converted, which sign-extends it) and stores the sum back into the \<^verbatim>\<open>int\<close>,
  which keeps its low 32 bits.  The second range has no end iterator: an index
  longer than the strides reads past the end of \<^verbatim>\<open>m_strides\<close>, which is
  undefined behaviour in the source and \<open>None\<close> here.
\<close>

fun inner_product :: "size_t list \<Rightarrow> size_t list \<Rightarrow> c_int \<Rightarrow> c_int option" where
  "inner_product [] ys acc = Some acc"
| "inner_product (x # xs) [] acc = None"
| "inner_product (x # xs) (y # ys) acc =
     inner_product xs ys (ucast ((scast acc :: size_t) + x * y))"

text \<open>One call \<^verbatim>\<open>m_dist(m_engine)\<close> on the members of the cache.\<close>

definition sample ::
  "('d, 'e, 'v) dist_call \<Rightarrow> ('e, 'd) random_impl \<Rightarrow> 'v \<times> ('e, 'd) random_impl" where
  "sample dist st =
     (case dist (m_dist st) (m_engine st) of
        (v, d, e) \<Rightarrow> (v, st\<lparr> m_engine := e, m_dist := d \<rparr>))"

text \<open>
  The loop \<^verbatim>\<open>for (; m_advance_state < advance_state; m_advance_state++)\<close>
  that draws and discards.
\<close>

function discard_loop ::
  "('d, 'e, 'v) dist_call \<Rightarrow> int \<Rightarrow> ('e, 'd) random_impl \<Rightarrow> ('e, 'd) random_impl" where
  "discard_loop dist advance_state st =
     (if m_advance_state st < advance_state
      then discard_loop dist advance_state
             ((snd (sample dist st))\<lparr> m_advance_state := m_advance_state st + 1 \<rparr>)
      else st)"
  by pat_completeness auto
termination
  by (relation "measure (\<lambda>(dist, a, st). nat (a - m_advance_state st))") auto

declare discard_loop.simps [simp del]

text \<open>
  \<^verbatim>\<open>access_impl(first, last)\<close>: the value returned and the cache after the
  call, or \<open>None\<close> where \<^verbatim>\<open>std::inner_product\<close> is undefined.
\<close>

definition full_reset ::
  "('d \<Rightarrow> 'd) \<Rightarrow> ('e, 'd) random_impl \<Rightarrow> ('e, 'd) random_impl" where
  "full_reset reset st =
     st\<lparr> m_engine := m_engine_state st, m_dist := reset (m_dist st), m_advance_state := 0 \<rparr>"

definition access_impl ::
  "('d, 'e, 'v) dist_call \<Rightarrow> ('d \<Rightarrow> 'd) \<Rightarrow> size_t list \<Rightarrow> ('e, 'd) random_impl
     \<Rightarrow> ('v \<times> ('e, 'd) random_impl) option" where
  "access_impl dist reset idx st =
     (case inner_product idx (m_strides st) 0 of
        None \<Rightarrow> None
      | Some acc \<Rightarrow>
          (let advance_state = sint acc;
               st1 = st\<lparr> m_advance_state := m_advance_state st + 1 \<rparr>
           in if m_advance_state st1 = advance_state
              then Some (sample dist st1)
              else
                (let st2 = (if advance_state < m_advance_state st1
                            then full_reset reset st1 else st1);
                     st3 = discard_loop dist advance_state st2
                 in Some (sample dist st3))))"

text \<open>
  The three public accessors.  \<^verbatim>\<open>operator()(Args... args)\<close> takes arguments
  of any arithmetic type, given here by their integer values, and converts
  each with \<^verbatim>\<open>static_cast<size_type>\<close>; \<^verbatim>\<open>operator[]\<close> takes an
  \<^verbatim>\<open>xindex\<close> (a vector of \<^verbatim>\<open>std::size_t\<close>); \<^verbatim>\<open>element\<close> takes an iterator
  range.
\<close>

definition operator_call ::
  "('d, 'e, 'v) dist_call \<Rightarrow> ('d \<Rightarrow> 'd) \<Rightarrow> int list \<Rightarrow> ('e, 'd) random_impl
     \<Rightarrow> ('v \<times> ('e, 'd) random_impl) option" where
  "operator_call dist reset args st =
     (let idx = map (\<lambda>a. (word_of_int a :: size_t)) args
      in access_impl dist reset idx st)"

definition operator_subscript ::
  "('d, 'e, 'v) dist_call \<Rightarrow> ('d \<Rightarrow> 'd) \<Rightarrow> size_t list \<Rightarrow> ('e, 'd) random_impl
     \<Rightarrow> ('v \<times> ('e, 'd) random_impl) option" where
  "operator_subscript dist reset idx st = access_impl dist reset idx st"

definition element ::
  "('d, 'e, 'v) dist_call \<Rightarrow> ('d \<Rightarrow> 'd) \<Rightarrow> size_t list \<Rightarrow> ('e, 'd) random_impl
     \<Rightarrow> ('v \<times> ('e, 'd) random_impl) option" where
  "element dist reset first_last st = access_impl dist reset first_last st"

section \<open>make\_random\_xgenerator\<close>

text \<open>
  Modelled from the spec: \<^verbatim>\<open>detail::make_xgenerator\<close> of
  \<^verbatim>\<open>xgenerator.hpp\<close>, which is not part of the sources at hand.  It binds
  the per-element callable to the shape and does nothing else.
\<close>

record 'f xgenerator =
  m_f :: 'f
  m_shape :: "size_t list"

definition make_xgenerator :: "'f \<Rightarrow> size_t list \<Rightarrow> 'f xgenerator" where
  "make_xgenerator f shape = \<lparr> m_f = f, m_shape = shape \<rparr>"

text \<open>\<^verbatim>\<open>std::accumulate(first, last, init, op)\<close>.\<close>

fun accumulate :: "'a list \<Rightarrow> 'b \<Rightarrow> ('b \<Rightarrow> 'a \<Rightarrow> 'b) \<Rightarrow> 'b" where
  "accumulate [] init op = init"
| "accumulate (x # xs) init op = accumulate xs (op init x) op"

text \<open>
  \<^verbatim>\<open>engine.discard(z)\<close> of the standard library advances the engine by
  \<open>z\<close> raw steps; \<open>step\<close> is one raw step of the engine (one call of
  \<^verbatim>\<open>engine()\<close> with its result thrown away).
\<close>

definition discard :: "('e \<Rightarrow> 'e) \<Rightarrow> nat \<Rightarrow> 'e \<Rightarrow> 'e" where
  "discard step z engine = (step ^^ z) engine"

text \<open>
  \<^verbatim>\<open>make_random_xgenerator(dist, engine, shape)\<close>.  The engine is passed by
  reference: the model returns it next to the generator.  The cache is built
  from a copy of the engine taken before the discard.
\<close>

definition make_random_xgenerator ::
  "('e \<Rightarrow> 'e) \<Rightarrow> 'd \<Rightarrow> 'e \<Rightarrow> size_t list \<Rightarrow> ('e, 'd) random_impl xgenerator \<times> 'e" where
  "make_random_xgenerator step dist engine shape =
     (let f = make_xgenerator (random_impl engine dist shape) shape;
          n_discard = accumulate shape (1 :: size_t) (*)
      in (f, discard step (unat n_discard) engine))"

section \<open>Reference notions\<close>

text \<open>The mathematical dot product of an index with the strides.\<close>

fun dot :: "size_t list \<Rightarrow> size_t list \<Rightarrow> nat" where
  "dot (x # xs) (y # ys) = unat x * unat y + dot xs ys"
| "dot xs ys = 0"

text \<open>A sequence of value-at calls on one cache: the values read and the final cache.\<close>

fun reads ::
  "('d, 'e, 'v) dist_call \<Rightarrow> ('d \<Rightarrow> 'd) \<Rightarrow> size_t list list \<Rightarrow> ('e, 'd) random_impl
     \<Rightarrow> ('v list \<times> ('e, 'd) random_impl) option" where
  "reads dist reset [] st = Some ([], st)"
| "reads dist reset (idx # idxs) st =
     (case access_impl dist reset idx st of
        None \<Rightarrow> None
      | Some (v, st') \<Rightarrow>
          (case reads dist reset idxs st' of
             None \<Rightarrow> None
           | Some (vs, st'') \<Rightarrow> Some (v # vs, st'')))"

text \<open>The valid multi-dimensional indices of a shape, in row-major order.\<close>

fun row_major :: "size_t list \<Rightarrow> size_t list list" where
  "row_major [] = [[]]"
| "row_major (n # ns) =
     concat (map (\<lambda>i. map ((#) (word_of_nat i)) (row_major ns)) [0..<unat n])"

text \<open>
  Drawing \<open>n\<close> successive samples from a distribution and an engine, with no
  cache in between.
\<close>

fun draw_n :: "('d, 'e, 'v) dist_call \<Rightarrow> nat \<Rightarrow> 'd \<Rightarrow> 'e \<Rightarrow> 'v list" where
  "draw_n dist 0 d e = []"
| "draw_n dist (Suc n) d e = (case dist d e of (v, d', e') \<Rightarrow> v # draw_n dist n d' e')"

text \<open>The distribution and engine after \<open>n\<close> draws, and the sample number \<open>n\<close> (from 0).\<close>

fun advance :: "('d, 'e, 'v) dist_call \<Rightarrow> nat \<Rightarrow> 'd \<times> 'e \<Rightarrow> 'd \<times> 'e" where
  "advance dist 0 s = s"
| "advance dist (Suc n) s = advance dist n (snd (dist (fst s) (snd s)))"

definition nth_draw :: "('d, 'e, 'v) dist_call \<Rightarrow> nat \<Rightarrow> 'd \<Rightarrow> 'e \<Rightarrow> 'v" where
  "nth_draw dist n d e = fst (dist (fst (advance dist n (d, e))) (snd (advance dist n (d, e))))"

text \<open>
  What the standard asks of a distribution, with \<open>'d\<close> holding what later
  draws can observe of it: a freshly constructed distribution has nothing
  buffered (\<open>reset\<close> leaves it as it is), and what \<open>reset\<close> returns does not
  depend on the draws made before (a draw changes the buffered state only,
  never the parameters).  The entry points \<^verbatim>\<open>rand\<close>, \<^verbatim>\<open>randint\<close> and
  \<^verbatim>\<open>randn\<close> hand a freshly constructed distribution to the cache.
\<close>

definition well_behaved :: "('d, 'e, 'v) dist_call \<Rightarrow> ('d \<Rightarrow> 'd) \<Rightarrow> 'd \<Rightarrow> bool" where
  "well_behaved dist reset d0 \<longleftrightarrow>
     reset d0 = d0 \<and> (\<forall>d e. reset (fst (snd (dist d e))) = reset d)"

text \<open>The linear position \<^verbatim>\<open>access_impl\<close> serves for an index (0 for a negative \<^verbatim>\<open>advance_state\<close>).\<close>

definition served :: "size_t list \<Rightarrow> size_t list \<Rightarrow> nat" where
  "served strides idx =
     (case inner_product idx strides 0 of None \<Rightarrow> 0 | Some acc \<Rightarrow> nat (sint acc))"

text \<open>Whether a value-at call takes the full-reset branch.\<close>

definition rewinds :: "size_t list \<Rightarrow> ('e, 'd) random_impl \<Rightarrow> bool" where
  "rewinds idx st =
     (case inner_product idx (m_strides st) 0 of
        None \<Rightarrow> False
      | Some acc \<Rightarrow> sint acc \<noteq> m_advance_state st + 1 \<and> sint acc < m_advance_state st + 1)"

text \<open>
  A distribution instrumented with the number of draws made since it was
  constructed or last reset.
\<close>

definition counted :: "('d, 'e, 'v) dist_call \<Rightarrow> (nat \<times> 'd, 'e, 'v) dist_call" where
  "counted dist = (\<lambda>(n, d) e. case dist d e of (v, d', e') \<Rightarrow> (v, (Suc n, d'), e'))"

definition counted_reset :: "('d \<Rightarrow> 'd) \<Rightarrow> nat \<times> 'd \<Rightarrow> nat \<times> 'd" where
  "counted_reset reset = (\<lambda>(n, d). (0, reset d))"

text \<open>The row-major strides of a shape in \<^verbatim>\<open>std::size_t\<close> arithmetic, written in closed form.\<close>

definition strides_of :: "size_t list \<Rightarrow> size_t list" where
  "strides_of shape = map (\<lambda>k. prod_list (drop (Suc k) shape)) [0..<length shape]"

text \<open>
  The cache is in step with the stream: the cursor is at least \<open>-1\<close>, the
  distribution resets to the one given to the constructor, and distribution
  and engine are those reached from the constructor's by \<open>cursor + 1\<close> draws.
\<close>

definition in_sync ::
  "('d, 'e, 'v) dist_call \<Rightarrow> ('d \<Rightarrow> 'd) \<Rightarrow> 'd \<Rightarrow> ('e, 'd) random_impl \<Rightarrow> bool" where
  "in_sync dist reset d0 st \<longleftrightarrow>
     - 1 \<le> m_advance_state st \<and> reset (m_dist st) = d0 \<and>
     m_dist st = fst (advance dist (nat (m_advance_state st + 1)) (d0, m_engine_state st)) \<and>
     m_engine st = snd (advance dist (nat (m_advance_state st + 1)) (d0, m_engine_state st))"

section \<open>Small engines and distributions for concrete runs\<close>

text \<open>
  The engine is a counter: its state is the raw position in the stream, one raw
  step is \<open>Suc\<close>.  \<open>raw_dist\<close> consumes one raw step per sample and returns the
  raw position it consumed.  \<open>two_raw_dist\<close> consumes two raw steps per sample,
  as \<^verbatim>\<open>std::generate_canonical<double, 53>\<close> does on the 32-bit engine
  \<^verbatim>\<open>std::mt19937\<close>, and returns both positions.  \<open>polar_dist\<close> produces two
  samples from two raw steps and buffers the second one, as
  \<^verbatim>\<open>std::normal_distribution\<close> does.
\<close>

definition raw_dist :: "(unit, nat, nat) dist_call" where
  "raw_dist d e = (e, d, Suc e)"

definition two_raw_dist :: "(unit, nat, nat \<times> nat) dist_call" where
  "two_raw_dist d e = ((e, Suc e), d, Suc (Suc e))"

definition polar_dist :: "(nat option, nat, nat) dist_call" where
  "polar_dist saved e =
     (case saved of
        Some v \<Rightarrow> (v, None, e)
      | None \<Rightarrow> (e + Suc e, Some (e * Suc e), Suc (Suc e)))"

definition polar_reset :: "nat option \<Rightarrow> nat option" where
  "polar_reset saved = None"

section \<open>The stride computation\<close>

lemma length_strides_loop [simp]:
  "length (strides_loop n shape strides data_size) = length strides"
  by (induction n arbitrary: strides data_size) (simp_all add: Let_def)

lemma strides_loop_nth:
  assumes "n \<le> length shape" "length strides = length shape"
      and "data_size = prod_list (drop n shape)"
      and "\<forall>k < length shape. n \<le> k \<longrightarrow> strides ! k = prod_list (drop (Suc k) shape)"
      and "k < length shape"
  shows "strides_loop n shape strides data_size ! k = prod_list (drop (Suc k) shape)"
  using assms
proof (induction n arbitrary: strides data_size)
  case 0
  then show ?case by simp
next
  case (Suc j)
  let ?s = "strides[j := data_size]"
  have j: "j < length shape" using Suc.prems(1) by simp
  have d: "drop j shape = shape ! j # drop (Suc j) shape"
    using j by (simp add: Cons_nth_drop_Suc)
  have "strides_loop j shape ?s (?s ! j * shape ! j) ! k = prod_list (drop (Suc k) shape)"
  proof (rule Suc.IH)
    show "j \<le> length shape" using j by simp
    show "length ?s = length shape" using Suc.prems(2) by simp
    show "?s ! j * shape ! j = prod_list (drop j shape)"
      using j Suc.prems(2,3) by (simp add: d mult.commute)
    show "\<forall>k<length shape. j \<le> k \<longrightarrow> ?s ! k = prod_list (drop (Suc k) shape)"
    proof (intro allI impI)
      fix k assume k: "k < length shape" "j \<le> k"
      show "?s ! k = prod_list (drop (Suc k) shape)"
      proof (cases "k = j")
        case True
        then show ?thesis using j Suc.prems(2,3) by simp
      next
        case False
        then have "Suc j \<le> k" using k by simp
        then show ?thesis using False k Suc.prems(4) by simp
      qed
    qed
    show "k < length shape" by (rule Suc.prems(5))
  qed
  then show ?case by (simp add: Let_def)
qed

section \<open>The int accumulator of the inner product\<close>

lemma take_bit_32_64_add:
  "take_bit 32 (take_bit 64 a + take_bit 64 b) = take_bit 32 (a + b)" for a b :: int
proof -
  have "take_bit 32 (take_bit 64 a + take_bit 64 b)
        = take_bit 32 (take_bit 32 (take_bit 64 a) + take_bit 32 (take_bit 64 b))"
    by (simp only: take_bit_add)
  also have "\<dots> = take_bit 32 (take_bit 32 a + take_bit 32 b)"
    by simp
  also have "\<dots> = take_bit 32 (a + b)"
    by (simp only: take_bit_add)
  finally show ?thesis .
qed

lemma take_bit_32_64_mult:
  "take_bit 32 (take_bit 64 a * take_bit 64 b) = take_bit 32 (a * b)" for a b :: int
proof -
  have "take_bit 32 (take_bit 64 a * take_bit 64 b)
        = take_bit 32 (take_bit 32 (take_bit 64 a) * take_bit 32 (take_bit 64 b))"
    by (simp only: take_bit_mult)
  also have "\<dots> = take_bit 32 (take_bit 32 a * take_bit 32 b)"
    by simp
  also have "\<dots> = take_bit 32 (a * b)"
    by (simp only: take_bit_mult)
  finally show ?thesis .
qed

lemma ucast_down_add: "(ucast ((a::64 word) + b) :: 32 word) = ucast a + ucast b"
  by transfer (simp add: take_bit_32_64_add)

lemma ucast_down_mult: "(ucast ((a::64 word) * b) :: 32 word) = ucast a * ucast b"
  by transfer (simp add: take_bit_32_64_mult)

lemma ucast_scast_id: "(ucast (scast (a :: 32 word) :: 64 word) :: 32 word) = a"
  by transfer (simp add: take_bit_signed_take_bit)

lemma inner_step:
  "(ucast ((scast (acc :: 32 word) :: 64 word) + x * y) :: 32 word) = acc + word_of_nat (unat x * unat y)"
  by (simp add: ucast_down_add ucast_down_mult ucast_scast_id)

lemma inner_product_dot:
  "length idx \<le> length strides \<Longrightarrow>
   inner_product idx strides acc = Some (acc + word_of_nat (dot idx strides))"
proof (induction idx strides acc rule: inner_product.induct)
  case (1 ys acc)
  then show ?case by (cases ys) simp_all
next
  case (2 x xs acc)
  then show ?case by simp
next
  case (3 x xs y ys acc)
  then show ?case by (simp add: inner_step add.assoc)
qed

lemma inner_product_None:
  "length strides < length idx \<Longrightarrow> inner_product idx strides acc = None"
  by (induction idx strides acc rule: inner_product.induct) simp_all

lemma sint_small: "n < 2 ^ 31 \<Longrightarrow> sint (word_of_nat n :: 32 word) = int n"
proof -
  assume "n < 2 ^ 31"
  then have "int n < 2 ^ 31" by (metis of_nat_less_iff of_nat_numeral of_nat_power)
  then have "signed_take_bit 31 (int n) = int n"
    by (intro signed_take_bit_int_eq_self) simp_all
  moreover have "sint (word_of_nat n :: 32 word) = signed_take_bit 31 (int n)"
    using sint_sbintrunc' [where ?'a = 32, of "int n"] by simp
  ultimately show ?thesis by simp
qed

lemma sint_range: "- (2 ^ 31) \<le> sint (w :: 32 word) \<and> sint w < 2 ^ 31"
  using sint_ge [of w] sint_lt [of w] by simp

section \<open>Draws, the discard loop and one value-at call\<close>

lemma advance_add: "advance dist (m + n) s = advance dist n (advance dist m s)"
  by (induction m arbitrary: s) simp_all

lemma advance_Suc_right:
  "advance dist (Suc n) s = snd (dist (fst (advance dist n s)) (snd (advance dist n s)))"
  using advance_add [of dist n 1 s] by simp

lemma reset_advance:
  "well_behaved dist reset d0 \<Longrightarrow> reset (fst (advance dist n s)) = reset (fst s)"
  by (induction n arbitrary: s) (simp_all add: well_behaved_def)

lemma discard_loop_done: "advance_state \<le> m_advance_state st \<Longrightarrow> discard_loop dist advance_state st = st"
  by (simp add: discard_loop.simps)

lemma discard_loop_advance:
  "m_advance_state st \<le> a \<Longrightarrow>
   discard_loop dist a st =
     st\<lparr> m_engine := snd (advance dist (nat (a - m_advance_state st)) (m_dist st, m_engine st)),
         m_dist := fst (advance dist (nat (a - m_advance_state st)) (m_dist st, m_engine st)),
         m_advance_state := a \<rparr>"
proof (induction dist a st rule: discard_loop.induct)
  case (1 dist a st)
  show ?case
  proof (cases "m_advance_state st < a")
    case True
    let ?st' = "(snd (sample dist st))\<lparr> m_advance_state := m_advance_state st + 1 \<rparr>"
    have n: "nat (a - m_advance_state st) = Suc (nat (a - (m_advance_state st + 1)))"
      using True by simp
    have "discard_loop dist a st = discard_loop dist a ?st'"
      using True by (subst discard_loop.simps) simp
    also have "\<dots> = ?st'\<lparr> m_engine := snd (advance dist (nat (a - m_advance_state ?st')) (m_dist ?st', m_engine ?st')),
         m_dist := fst (advance dist (nat (a - m_advance_state ?st')) (m_dist ?st', m_engine ?st')),
         m_advance_state := a \<rparr>"
      using True by (intro "1.IH") simp_all
    finally show ?thesis
      by (simp add: n sample_def split: prod.splits)
  next
    case False
    with "1.prems" have "m_advance_state st = a" by simp
    then show ?thesis by (simp add: discard_loop.simps)
  qed
qed

lemma sample_advance:
  assumes "m_dist st = fst (advance dist n (d0, e0))" "m_engine st = snd (advance dist n (d0, e0))"
  shows "sample dist st =
           (nth_draw dist n d0 e0,
            st\<lparr> m_engine := snd (advance dist (Suc n) (d0, e0)),
                m_dist := fst (advance dist (Suc n) (d0, e0)) \<rparr>)"
  using assms by (simp add: sample_def nth_draw_def advance_Suc_right del: advance.simps split: prod.splits)

lemma access_impl_spec:
  assumes wb: "well_behaved dist reset d0"
      and sync: "in_sync dist reset d0 st"
      and ip: "inner_product idx (m_strides st) 0 = Some acc"
  shows "access_impl dist reset idx st =
           Some (nth_draw dist (nat (sint acc)) d0 (m_engine_state st),
                 st\<lparr> m_engine := snd (advance dist (Suc (nat (sint acc))) (d0, m_engine_state st)),
                     m_dist := fst (advance dist (Suc (nat (sint acc))) (d0, m_engine_state st)),
                     m_advance_state := max 0 (sint acc) \<rparr>)"
proof -
  let ?a = "sint acc" and ?c = "m_advance_state st" and ?e0 = "m_engine_state st"
  let ?st1 = "st\<lparr> m_advance_state := ?c + 1 \<rparr>"
  from sync have c: "- 1 \<le> ?c" and r: "reset (m_dist st) = d0"
    and d: "m_dist st = fst (advance dist (nat (?c + 1)) (d0, ?e0))"
    and e: "m_engine st = snd (advance dist (nat (?c + 1)) (d0, ?e0))"
    unfolding in_sync_def by blast+
  consider (seq) "?c + 1 = ?a" | (rewind) "?a < ?c + 1" | (fwd) "?c + 1 < ?a" by linarith
  then show ?thesis
  proof cases
    case seq
    have "sample dist ?st1 =
           (nth_draw dist (nat ?a) d0 ?e0,
            ?st1\<lparr> m_engine := snd (advance dist (Suc (nat ?a)) (d0, ?e0)),
                m_dist := fst (advance dist (Suc (nat ?a)) (d0, ?e0)) \<rparr>)"
      by (rule sample_advance) (simp_all add: d e seq)
    moreover have "max 0 ?a = ?c + 1" using seq c by simp
    ultimately show ?thesis using seq
      by (simp add: access_impl_def ip Let_def)
  next
    case rewind
    let ?st2 = "full_reset reset ?st1"
    let ?st3 = "?st2\<lparr> m_engine := snd (advance dist (nat ?a) (d0, ?e0)),
                       m_dist := fst (advance dist (nat ?a) (d0, ?e0)),
                       m_advance_state := max 0 ?a \<rparr>"
    have l: "discard_loop dist ?a ?st2 = ?st3"
    proof (cases "0 \<le> ?a")
      case True
      then show ?thesis
        using discard_loop_advance [of ?st2 ?a dist]
        by (simp add: full_reset_def r max_def)
    next
      case False
      then have "discard_loop dist ?a ?st2 = ?st2"
        by (intro discard_loop_done) (simp add: full_reset_def)
      then show ?thesis using False by (simp add: full_reset_def r max_def)
    qed
    have "sample dist ?st3 =
           (nth_draw dist (nat ?a) d0 ?e0,
            ?st3\<lparr> m_engine := snd (advance dist (Suc (nat ?a)) (d0, ?e0)),
                m_dist := fst (advance dist (Suc (nat ?a)) (d0, ?e0)) \<rparr>)"
      by (rule sample_advance) simp_all
    then show ?thesis using rewind l
      by (simp add: access_impl_def ip Let_def full_reset_def)
  next
    case fwd
    let ?st3 = "?st1\<lparr> m_engine := snd (advance dist (nat ?a) (d0, ?e0)),
                       m_dist := fst (advance dist (nat ?a) (d0, ?e0)),
                       m_advance_state := ?a \<rparr>"
    have n: "nat ?a = nat (?c + 1) + nat (?a - (?c + 1))" using fwd c by simp
    have l: "discard_loop dist ?a ?st1 = ?st3"
      using discard_loop_advance [of ?st1 ?a dist] fwd
      by (simp add: d e advance_add [symmetric] n [symmetric])
    have "sample dist ?st3 =
           (nth_draw dist (nat ?a) d0 ?e0,
            ?st3\<lparr> m_engine := snd (advance dist (Suc (nat ?a)) (d0, ?e0)),
                m_dist := fst (advance dist (Suc (nat ?a)) (d0, ?e0)) \<rparr>)"
      by (rule sample_advance) simp_all
    moreover have "max 0 ?a = ?a" using fwd c by simp
    ultimately show ?thesis using fwd l
      by (simp add: access_impl_def ip Let_def)
  qed
qed

section \<open>Sequences of value-at calls\<close>

lemma sample_fields [simp]:
  "m_advance_state (snd (sample dist st)) = m_advance_state st"
  "m_strides (snd (sample dist st)) = m_strides st"
  "m_engine_state (snd (sample dist st)) = m_engine_state st"
  by (simp_all add: sample_def split: prod.splits)

lemma access_impl_unfold:
  assumes c: "- 1 \<le> m_advance_state st"
      and ip: "inner_product idx (m_strides st) 0 = Some acc"
  shows "access_impl dist reset idx st =
           Some (sample dist
             (if m_advance_state st + 1 \<le> sint acc
              then st\<lparr> m_engine := snd (advance dist (nat (sint acc - (m_advance_state st + 1)))
                                         (m_dist st, m_engine st)),
                      m_dist := fst (advance dist (nat (sint acc - (m_advance_state st + 1)))
                                         (m_dist st, m_engine st)),
                      m_advance_state := sint acc \<rparr>
              else st\<lparr> m_engine := snd (advance dist (nat (sint acc))
                                         (reset (m_dist st), m_engine_state st)),
                      m_dist := fst (advance dist (nat (sint acc))
                                         (reset (m_dist st), m_engine_state st)),
                      m_advance_state := max 0 (sint acc) \<rparr>))"
proof -
  let ?a = "sint acc" and ?c = "m_advance_state st"
  let ?st1 = "st\<lparr> m_advance_state := ?c + 1 \<rparr>"
  consider (seq) "?c + 1 = ?a" | (rewind) "?a < ?c + 1" | (jump) "?c + 1 < ?a" by linarith
  then show ?thesis
  proof cases
    case seq
    then show ?thesis by (simp add: access_impl_def ip Let_def)
  next
    case rewind
    let ?st2 = "full_reset reset ?st1"
    have "discard_loop dist ?a ?st2 =
            st\<lparr> m_engine := snd (advance dist (nat ?a) (reset (m_dist st), m_engine_state st)),
                m_dist := fst (advance dist (nat ?a) (reset (m_dist st), m_engine_state st)),
                m_advance_state := max 0 ?a \<rparr>"
    proof (cases "0 \<le> ?a")
      case True
      then show ?thesis
        using discard_loop_advance [of ?st2 ?a dist] by (simp add: full_reset_def max_def)
    next
      case False
      then have "discard_loop dist ?a ?st2 = ?st2"
        by (intro discard_loop_done) (simp add: full_reset_def)
      then show ?thesis using False by (simp add: full_reset_def max_def)
    qed
    then show ?thesis using rewind by (simp add: access_impl_def ip Let_def)
  next
    case jump
    have "discard_loop dist ?a ?st1 =
            st\<lparr> m_engine := snd (advance dist (nat (?a - (?c + 1))) (m_dist st, m_engine st)),
                m_dist := fst (advance dist (nat (?a - (?c + 1))) (m_dist st, m_engine st)),
                m_advance_state := ?a \<rparr>"
      using discard_loop_advance [of ?st1 ?a dist] jump by simp
    then show ?thesis using jump by (simp add: access_impl_def ip Let_def)
  qed
qed

lemma access_impl_fields:
  assumes "- 1 \<le> m_advance_state st"
      and "inner_product idx (m_strides st) 0 = Some acc"
      and "access_impl dist reset idx st = Some (v, st')"
  shows "m_advance_state st' = max 0 (sint acc)"
    and "m_strides st' = m_strides st"
    and "m_engine_state st' = m_engine_state st"
proof -
  have st': "st' = snd (the (access_impl dist reset idx st))" using assms(3) by simp
  show "m_advance_state st' = max 0 (sint acc)"
    unfolding st' access_impl_unfold [OF assms(1,2)] using assms(1) by (simp add: max_def)
  show "m_strides st' = m_strides st"
    unfolding st' access_impl_unfold [OF assms(1,2)] by simp
  show "m_engine_state st' = m_engine_state st"
    unfolding st' access_impl_unfold [OF assms(1,2)] by simp
qed

lemma in_sync_init:
  "well_behaved dist reset d0 \<Longrightarrow> in_sync dist reset d0 (random_impl engine d0 shape)"
  by (simp add: in_sync_def random_impl_def well_behaved_def)

lemma served_Some:
  "inner_product idx strides 0 = Some acc \<Longrightarrow> served strides idx = nat (sint acc)"
  by (simp add: served_def)

lemma access_impl_sync:
  assumes wb: "well_behaved dist reset d0"
      and sync: "in_sync dist reset d0 st"
      and len: "length idx \<le> length (m_strides st)"
  shows "\<exists>st'. access_impl dist reset idx st =
                 Some (nth_draw dist (served (m_strides st) idx) d0 (m_engine_state st), st') \<and>
               in_sync dist reset d0 st' \<and> m_strides st' = m_strides st \<and>
               m_engine_state st' = m_engine_state st"
proof -
  obtain acc where ip: "inner_product idx (m_strides st) 0 = Some acc"
    using inner_product_dot [OF len] by blast
  let ?n = "nat (sint acc)" and ?e0 = "m_engine_state st"
  let ?st' = "st\<lparr> m_engine := snd (advance dist (Suc ?n) (d0, ?e0)),
                    m_dist := fst (advance dist (Suc ?n) (d0, ?e0)),
                    m_advance_state := max 0 (sint acc) \<rparr>"
  have "access_impl dist reset idx st = Some (nth_draw dist ?n d0 ?e0, ?st')"
    by (rule access_impl_spec [OF wb sync ip])
  moreover have "nat (max 0 (sint acc) + 1) = Suc ?n" by (auto simp: max_def)
  moreover have "reset (fst (advance dist (Suc ?n) (d0, ?e0))) = d0"
    using reset_advance [OF wb, of "Suc ?n" "(d0, ?e0)"] wb by (simp add: well_behaved_def)
  ultimately show ?thesis
    by (simp add: in_sync_def served_Some [OF ip] del: advance.simps)
qed

lemma reads_spec:
  assumes wb: "well_behaved dist reset d0"
      and sync: "in_sync dist reset d0 st"
      and len: "list_all (\<lambda>i. length i \<le> length (m_strides st)) idxs"
  shows "\<exists>st'. reads dist reset idxs st =
                 Some (map (\<lambda>i. nth_draw dist (served (m_strides st) i) d0 (m_engine_state st)) idxs,
                       st') \<and>
               in_sync dist reset d0 st' \<and> m_strides st' = m_strides st \<and>
               m_engine_state st' = m_engine_state st"
  using sync len
proof (induction idxs arbitrary: st)
  case Nil
  then show ?case by simp
next
  case (Cons i idxs)
  from Cons.prems obtain st1 where
    a: "access_impl dist reset i st =
          Some (nth_draw dist (served (m_strides st) i) d0 (m_engine_state st), st1)"
    and s1: "in_sync dist reset d0 st1" and m1: "m_strides st1 = m_strides st"
    and e1: "m_engine_state st1 = m_engine_state st"
    using access_impl_sync [OF wb, of st i] by auto
  from Cons.prems have "list_all (\<lambda>i. length i \<le> length (m_strides st1)) idxs"
    by (simp add: m1)
  from Cons.IH [OF s1 this] obtain st2 where
    r: "reads dist reset idxs st1 =
          Some (map (\<lambda>i. nth_draw dist (served (m_strides st1) i) d0 (m_engine_state st1)) idxs,
                st2)"
    and s2: "in_sync dist reset d0 st2" and m2: "m_strides st2 = m_strides st1"
    and e2: "m_engine_state st2 = m_engine_state st1"
    by blast
  show ?case using a r s2 m2 e2 by (simp add: m1 e1)
qed

lemma row_major_length: "idx \<in> set (row_major shape) \<Longrightarrow> length idx = length shape"
  by (induction shape arbitrary: idx) auto

section \<open>Claims about the index arithmetic, the strides, the factory and the accessors\<close>

text \<open>
  Claim C9.  The linear draw position of value-at is accumulated in an
  \<^verbatim>\<open>int\<close>: for an index no longer than the strides, \<^verbatim>\<open>std::inner_product\<close>
  returns the dot product of index and strides cut to 32 bits, and the signed
  value that \<^verbatim>\<open>access_impl\<close> stores in its \<^verbatim>\<open>long advance_state\<close> equals the
  dot product exactly when the dot product is below \<open>2^31\<close>; a larger one
  wraps.  (The products are non-negative, so every partial sum fits when the
  total does.)
\<close>

theorem inner_product_int_accumulator:
  assumes "length idx \<le> length strides"
  shows "\<exists>acc. inner_product idx strides 0 = Some acc \<and>
           acc = word_of_nat (dot idx strides) \<and>
           (sint acc = int (dot idx strides)) = (dot idx strides < 2 ^ 31)"
proof -
  let ?acc = "word_of_nat (dot idx strides) :: 32 word"
  have ip: "inner_product idx strides 0 = Some ?acc"
    using inner_product_dot [OF assms, of 0] by simp
  have "(sint ?acc = int (dot idx strides)) = (dot idx strides < 2 ^ 31)"
  proof (cases "dot idx strides < 2 ^ 31")
    case True
    then show ?thesis by (simp add: sint_small)
  next
    case False
    have "sint ?acc < 2 ^ 31" using sint_range [of ?acc] by simp
    moreover have "(2 :: int) ^ 31 \<le> int (dot idx strides)"
      using False by (metis not_less of_nat_le_iff of_nat_numeral of_nat_power)
    ultimately show ?thesis using False by simp
  qed
  with ip show ?thesis by blast
qed

theorem inner_product_int_accumulator_witness:
  "(\<exists>acc. inner_product [1, 2] [3, 1] 0 = Some acc \<and> sint acc = 5) \<and>
   (\<exists>acc. inner_product [2147483648] [1] 0 = Some acc \<and> sint acc = - 2147483648)"
  using inner_product_int_accumulator [of "[1, 2]" "[3, 1]"]
        inner_product_int_accumulator [of "[2147483648]" "[1]"]
  by simp

lemma unat_prod_list:
  "unat (prod_list (xs :: 64 word list)) = prod_list (map unat xs) mod 2 ^ 64"
  by (induction xs) (simp_all add: unat_word_ariths mod_mult_right_eq)

lemma strides_random_impl:
  assumes "k < length shape"
  shows "m_strides (random_impl engine dist shape) ! k = prod_list (drop (Suc k) shape)"
  unfolding random_impl_def
  by (simp, rule strides_loop_nth) (use assms in simp_all)

text \<open>
  Claim C8.  After construction the strides have the length of the shape, the
  last stride is 1, and stride \<open>k\<close> is the product of the extents after
  position \<open>k\<close>.  The product is the one of \<^verbatim>\<open>std::size_t\<close>: read as a natural
  number, the stride is the product of the extents modulo \<open>2^64\<close>.
\<close>

theorem strides_row_major:
  "length (m_strides (random_impl engine dist shape)) = length shape \<and>
   (shape \<noteq> [] \<longrightarrow> last (m_strides (random_impl engine dist shape)) = 1) \<and>
   (\<forall>k < length shape.
      m_strides (random_impl engine dist shape) ! k = prod_list (drop (Suc k) shape) \<and>
      unat (m_strides (random_impl engine dist shape) ! k)
        = prod_list (map unat (drop (Suc k) shape)) mod 2 ^ 64)"
proof (intro conjI impI allI)
  show len: "length (m_strides (random_impl engine dist shape)) = length shape"
    by (simp add: random_impl_def)
  show "last (m_strides (random_impl engine dist shape)) = 1" if "shape \<noteq> []"
  proof -
    have "last (m_strides (random_impl engine dist shape))
          = m_strides (random_impl engine dist shape) ! (length shape - 1)"
      using that len last_conv_nth [of "m_strides (random_impl engine dist shape)"]
      by fastforce
    also have "\<dots> = prod_list (drop (Suc (length shape - 1)) shape)"
      using that by (intro strides_random_impl) simp
    finally show ?thesis using that by simp
  qed
  show "m_strides (random_impl engine dist shape) ! k = prod_list (drop (Suc k) shape)"
    if "k < length shape" for k using that by (rule strides_random_impl)
  show "unat (m_strides (random_impl engine dist shape) ! k)
        = prod_list (map unat (drop (Suc k) shape)) mod 2 ^ 64"
    if "k < length shape" for k
    using that by (simp add: strides_random_impl unat_prod_list)
qed

theorem strides_row_major_witness:
  "m_strides (random_impl () () [2, 3, 4]) = [12, 4, 1]"
proof -
  let ?s = "m_strides (random_impl () () [2, 3, 4])"
  have "length ?s = 3 \<and> ?s ! 0 = 12 \<and> ?s ! 1 = 4 \<and> ?s ! 2 = 1"
    using strides_row_major [of "()" "()" "[2, 3, 4]"] by simp
  then show ?thesis
    by (cases ?s) (auto simp: length_Suc_conv numeral_3_eq_3)
qed

lemma accumulate_times: "accumulate xs (init :: 64 word) (*) = init * prod_list xs"
  by (induction xs arbitrary: init) (simp_all add: mult.assoc)

lemma factory_result:
  "make_random_xgenerator step dist engine shape =
     (\<lparr> m_f = random_impl engine dist shape, m_shape = shape \<rparr>,
      (step ^^ (prod_list (map unat shape) mod 2 ^ 64)) engine)"
  by (simp add: make_random_xgenerator_def make_xgenerator_def discard_def accumulate_times
      unat_prod_list)

text \<open>
  Claim C6.  \<^verbatim>\<open>make_random_xgenerator\<close> binds a cache built from a copy of the
  caller's engine to the shape and then advances the caller's engine by the
  product of the extents (as \<^verbatim>\<open>std::size_t\<close>, that is modulo \<open>2^64\<close>) raw
  steps.  The count comes from \<^verbatim>\<open>std::accumulate\<close> over the shape; the cache
  keeps the engine as it was before the discard and its cursor is still
  \<open>-1\<close>.
\<close>

theorem factory_advances_engine:
  "make_random_xgenerator step dist engine shape =
     (\<lparr> m_f = random_impl engine dist shape, m_shape = shape \<rparr>,
      (step ^^ (prod_list (map unat shape) mod 2 ^ 64)) engine) \<and>
   m_engine (random_impl engine dist shape) = engine \<and>
   m_advance_state (random_impl engine dist shape) = - 1"
  by (simp add: factory_result) (simp add: random_impl_def)

text \<open>
  Claim C10.  The three accessors \<^verbatim>\<open>operator()\<close>, \<^verbatim>\<open>operator[]\<close> and
  \<^verbatim>\<open>element\<close> return the same value and the same next cache for the same
  index components: each one is \<^verbatim>\<open>access_impl\<close> on these components.
\<close>

theorem accessors_delegate:
  "operator_call dist reset args st
     = operator_subscript dist reset (map word_of_int args) st \<and>
   operator_subscript dist reset idx st = element dist reset idx st \<and>
   element dist reset idx st = access_impl dist reset idx st"
  by (simp add: operator_call_def operator_subscript_def element_def)

section \<open>Claims about the values read\<close>

lemma reads_fresh:
  assumes wb: "well_behaved dist reset d0"
      and len: "list_all (\<lambda>i. length i \<le> length shape) idxs"
  shows "\<exists>st. reads dist reset idxs (random_impl engine d0 shape) =
                Some (map (\<lambda>i. nth_draw dist
                                 (served (m_strides (random_impl engine d0 shape)) i) d0 engine)
                          idxs, st)"
proof -
  have "list_all (\<lambda>i. length i \<le> length (m_strides (random_impl engine d0 shape))) idxs"
    using len by (simp add: random_impl_def)
  from reads_spec [OF wb in_sync_init [OF wb] this]
  show ?thesis by (auto simp: random_impl_def)
qed

lemma row_major_ranks: "list_all (\<lambda>i. length i \<le> length shape) (row_major shape)"
  by (simp add: list_all_iff row_major_length)

text \<open>
  Claim C1.  For a distribution that behaves as the standard asks, any engine
  and any shape: reading every valid index exactly once in an arbitrary order
  gives, for each index, the value that the same index gets when an
  identically constructed cache is read in row-major order.  Both runs return.
\<close>

theorem order_independence:
  assumes "well_behaved dist reset d0"
      and "distinct perm" and "set perm = set (row_major shape)"
  shows "\<exists>vs ws st st'.
           reads dist reset perm (random_impl engine d0 shape) = Some (vs, st) \<and>
           reads dist reset (row_major shape) (random_impl engine d0 shape) = Some (ws, st') \<and>
           length vs = length perm \<and> length ws = length (row_major shape) \<and>
           (\<forall>i < length perm. \<forall>j < length (row_major shape).
              perm ! i = row_major shape ! j \<longrightarrow> vs ! i = ws ! j)"
proof -
  let ?f = "\<lambda>i. nth_draw dist (served (m_strides (random_impl engine d0 shape)) i) d0 engine"
  have "list_all (\<lambda>i. length i \<le> length shape) perm"
    using assms(3) by (simp add: list_all_iff row_major_length)
  from reads_fresh [OF assms(1) this] obtain st where
    p: "reads dist reset perm (random_impl engine d0 shape) = Some (map ?f perm, st)" by blast
  from reads_fresh [OF assms(1) row_major_ranks] obtain st' where
    r: "reads dist reset (row_major shape) (random_impl engine d0 shape)
          = Some (map ?f (row_major shape), st')" by blast
  show ?thesis using p r by simp
qed

theorem order_independence_witness:
  "well_behaved polar_dist polar_reset None \<and>
   distinct [[1, 2], [0, 1], [1, 0], [0, 0], [1, 1], [0, 2 :: size_t]] \<and>
   set [[1, 2], [0, 1], [1, 0], [0, 0], [1, 1], [0, 2]] = set (row_major [2, 3]) \<and>
   (\<exists>vs ws st st'.
      reads polar_dist polar_reset [[1, 2], [0, 1], [1, 0], [0, 0], [1, 1], [0, 2]]
        (random_impl (0 :: nat) None [2, 3]) = Some (vs, st) \<and>
      reads polar_dist polar_reset (row_major [2, 3]) (random_impl 0 None [2, 3]) = Some (ws, st') \<and>
      vs ! 0 = ws ! 5 \<and> vs ! 1 = ws ! 1 \<and> vs ! 2 = ws ! 3 \<and>
      vs ! 3 = ws ! 0 \<and> vs ! 4 = ws ! 4 \<and> vs ! 5 = ws ! 2)"
proof -
  let ?perm = "[[1, 2], [0, 1], [1, 0], [0, 0], [1, 1], [0, 2 :: size_t]]"
  have rm: "row_major [2, 3] = [[0, 0], [0, 1], [0, 2], [1, 0], [1, 1], [1, 2]]"
    by (simp add: upt_rec)
  have wb: "well_behaved polar_dist polar_reset None"
    by (simp add: well_behaved_def polar_reset_def)
  have d: "distinct ?perm" by simp
  have s: "set ?perm = set (row_major [2, 3])" unfolding rm by auto
  from order_independence [OF wb d s, of 0] obtain vs ws st st' where
    "reads polar_dist polar_reset ?perm (random_impl (0 :: nat) None [2, 3]) = Some (vs, st)"
    "reads polar_dist polar_reset (row_major [2, 3]) (random_impl 0 None [2, 3]) = Some (ws, st')"
    "length vs = length ?perm" "length ws = length (row_major [2, 3])"
    and eq: "\<forall>i < length ?perm. \<forall>j < length (row_major [2, 3]).
              ?perm ! i = row_major [2, 3] ! j \<longrightarrow> vs ! i = ws ! j"
    by blast
  moreover have "vs ! 0 = ws ! 5" using eq [rule_format, of 0 5] unfolding rm by simp
  moreover have "vs ! 1 = ws ! 1" using eq [rule_format, of 1 1] unfolding rm by simp
  moreover have "vs ! 2 = ws ! 3" using eq [rule_format, of 2 3] unfolding rm by simp
  moreover have "vs ! 3 = ws ! 0" using eq [rule_format, of 3 0] unfolding rm by simp
  moreover have "vs ! 4 = ws ! 4" using eq [rule_format, of 4 4] unfolding rm by simp
  moreover have "vs ! 5 = ws ! 2" using eq [rule_format, of 5 2] unfolding rm by simp
  ultimately show ?thesis using wb d s by blast
qed

text \<open>
  Claim C2.  On one cache, after any earlier reads \<open>pre\<close>: reading index
  \<open>i\<close>, then any other indices, then \<open>i\<close> again returns the same value both
  times.  The indices need the rank of the shape only.
\<close>

theorem idempotent_reread:
  assumes "well_behaved dist reset d0"
      and "list_all (\<lambda>j. length j = length shape) (pre @ i # others)"
  shows "\<exists>vs st.
           reads dist reset (pre @ [i] @ others @ [i]) (random_impl engine d0 shape)
             = Some (vs, st) \<and>
           length vs = length pre + length others + 2 \<and>
           vs ! length pre = vs ! (length pre + length others + 1)"
proof -
  let ?f = "\<lambda>i. nth_draw dist (served (m_strides (random_impl engine d0 shape)) i) d0 engine"
  have "list_all (\<lambda>j. length j \<le> length shape) (pre @ [i] @ others @ [i])"
    using assms(2) by (auto simp: list_all_iff)
  from reads_fresh [OF assms(1) this] obtain st where
    "reads dist reset (pre @ [i] @ others @ [i]) (random_impl engine d0 shape)
       = Some (map ?f (pre @ [i] @ others @ [i]), st)" by blast
  moreover have "map ?f (pre @ [i] @ others @ [i]) ! length pre = ?f i"
    by (simp add: nth_append)
  moreover have "map ?f (pre @ [i] @ others @ [i]) ! (length pre + length others + 1) = ?f i"
    by (simp add: nth_append)
  ultimately show ?thesis by simp
qed

theorem idempotent_reread_witness:
  "well_behaved polar_dist polar_reset None \<and>
   list_all (\<lambda>j. length j = length [2, 3 :: size_t]) ([[0, 1]] @ [1, 2] # [[0, 0], [1, 1]]) \<and>
   (\<exists>vs st.
      reads polar_dist polar_reset ([[0, 1]] @ [[1, 2]] @ [[0, 0], [1, 1]] @ [[1, 2]])
        (random_impl (0 :: nat) None [2, 3]) = Some (vs, st) \<and>
      vs ! 1 = vs ! 4)"
proof -
  have wb: "well_behaved polar_dist polar_reset None"
    by (simp add: well_behaved_def polar_reset_def)
  have l: "list_all (\<lambda>j. length j = length [2, 3 :: size_t]) ([[0, 1]] @ [1, 2] # [[0, 0], [1, 1]])"
    by simp
  from idempotent_reread [OF wb l, of 0] obtain vs st where
    r: "reads polar_dist polar_reset ([[0, 1]] @ [[1, 2]] @ [[0, 0], [1, 1]] @ [[1, 2]])
          (random_impl (0 :: nat) None [2, 3]) = Some (vs, st)"
    and e: "vs ! length [[0, 1 :: size_t]]
              = vs ! (length [[0, 1 :: size_t]] + length [[0, 0], [1, 1 :: size_t]] + 1)"
    by blast
  from e have "vs ! 1 = vs ! 4" by (simp add: eval_nat_numeral)
  with r wb l show ?thesis by blast
qed

section \<open>The cursor\<close>

lemma counted_advance:
  "fst (fst (advance (counted dist) n ((k, d), e))) = k + n"
  by (induction n arbitrary: k d e) (simp_all add: counted_def split: prod.splits)

lemma counted_sample:
  "fst (m_dist (snd (sample (counted dist) st))) = Suc (fst (m_dist st))"
  by (simp add: sample_def counted_def split: prod.splits)

lemma access_impl_Some_inner:
  "access_impl dist reset idx st = Some r \<Longrightarrow> \<exists>acc. inner_product idx (m_strides st) 0 = Some acc"
  by (simp add: access_impl_def split: option.splits)

lemma access_impl_returns:
  "inner_product idx (m_strides st) 0 = Some acc \<Longrightarrow>
   \<exists>v st'. access_impl dist reset idx st = Some (v, st')"
  by (cases "m_advance_state st + 1 = sint acc")
     (simp_all add: access_impl_def Let_def prod_eq_iff)

lemma access_impl_cursor_range:
  assumes "- 1 \<le> m_advance_state st"
      and "access_impl dist reset idx st = Some (v, st')"
  shows "0 \<le> m_advance_state st' \<and> m_advance_state st' < 2 ^ 31"
proof -
  from assms(2) obtain acc where ip: "inner_product idx (m_strides st) 0 = Some acc"
    using access_impl_Some_inner by blast
  have "m_advance_state st' = max 0 (sint acc)"
    by (rule access_impl_fields(1) [OF assms(1) ip assms(2)])
  then show ?thesis using sint_range [of acc] by simp
qed

lemma reads_cursor_range:
  assumes "- 1 \<le> m_advance_state st" and "m_advance_state st < 2 ^ 31"
      and "reads dist reset idxs st = Some (vs, st')"
  shows "- 1 \<le> m_advance_state st' \<and> m_advance_state st' < 2 ^ 31"
  using assms
proof (induction idxs arbitrary: st vs)
  case Nil
  then show ?case by simp
next
  case (Cons i idxs)
  from Cons.prems(3) obtain v st1 ws where
    a: "access_impl dist reset i st = Some (v, st1)"
    and r: "reads dist reset idxs st1 = Some (ws, st')"
    by (auto split: option.splits)
  from access_impl_cursor_range [OF Cons.prems(1) a]
  have "- 1 \<le> m_advance_state st1" and "m_advance_state st1 < 2 ^ 31" by simp_all
  then show ?case using r by (rule Cons.IH)
qed

lemma access_impl_counted:
  assumes c: "- 1 \<le> m_advance_state st"
      and n: "int (fst (m_dist st)) = m_advance_state st + 1"
      and a: "access_impl (counted dist) (counted_reset reset) idx st = Some (v, st')"
  shows "int (fst (m_dist st')) = m_advance_state st' + 1 \<and> - 1 \<le> m_advance_state st'"
proof -
  from a obtain acc where ip: "inner_product idx (m_strides st) 0 = Some acc"
    using access_impl_Some_inner by blast
  have st': "st' = snd (the (access_impl (counted dist) (counted_reset reset) idx st))"
    using a by simp
  obtain k d where kd: "m_dist st = (k, d)" by (cases "m_dist st")
  have k: "int k = m_advance_state st + 1" using n kd by simp
  show ?thesis
  proof (cases "m_advance_state st + 1 \<le> sint acc")
    case True
    then show ?thesis
      unfolding st' access_impl_unfold [OF c ip]
      using c k by (simp add: counted_sample kd counted_advance)
  next
    case False
    then show ?thesis
      unfolding st' access_impl_unfold [OF c ip]
      using c by (simp add: counted_sample kd counted_reset_def counted_advance max_def)
  qed
qed

lemma reads_counted:
  assumes "- 1 \<le> m_advance_state st"
      and "int (fst (m_dist st)) = m_advance_state st + 1"
      and "reads (counted dist) (counted_reset reset) idxs st = Some (vs, st')"
  shows "int (fst (m_dist st')) = m_advance_state st' + 1 \<and> - 1 \<le> m_advance_state st'"
  using assms
proof (induction idxs arbitrary: st vs)
  case Nil
  then show ?case by simp
next
  case (Cons i idxs)
  from Cons.prems(3) obtain v st1 ws where
    a: "access_impl (counted dist) (counted_reset reset) i st = Some (v, st1)"
    and r: "reads (counted dist) (counted_reset reset) idxs st1 = Some (ws, st')"
    by (auto split: option.splits)
  from access_impl_counted [OF Cons.prems(1,2) a]
  show ?case using Cons.IH [OF _ _ r] by blast
qed

text \<open>
  Claim C7, as amended.  Between value-at calls on one cache the cursor is
  the number of draws made since the last rewind (or since construction)
  minus one, that is the position of the draw served last, \<open>-1\<close> before any
  draw; and a value-at call that does not rewind leaves the cursor strictly
  larger.  The draws are counted by the instrumented distribution
  \<open>counted dist\<close>, for any distribution \<open>dist\<close>.
\<close>

theorem cursor_counts_draws:
  assumes "reads (counted dist) (counted_reset reset) idxs (random_impl engine (0, d0) shape)
             = Some (vs, st)"
  shows "m_advance_state st = int (fst (m_dist st)) - 1 \<and>
         (\<forall>idx v st'.
            access_impl (counted dist) (counted_reset reset) idx st = Some (v, st') \<longrightarrow>
            \<not> rewinds idx st \<longrightarrow> m_advance_state st < m_advance_state st')"
proof -
  have inv: "int (fst (m_dist st)) = m_advance_state st + 1 \<and> - 1 \<le> m_advance_state st"
    by (rule reads_counted [OF _ _ assms]) (simp_all add: random_impl_def)
  have "m_advance_state st < m_advance_state st'"
    if a: "access_impl (counted dist) (counted_reset reset) idx st = Some (v, st')"
      and nr: "\<not> rewinds idx st" for idx v st'
  proof -
    from a obtain acc where ip: "inner_product idx (m_strides st) 0 = Some acc"
      using access_impl_Some_inner by blast
    have "m_advance_state st' = max 0 (sint acc)"
      using access_impl_fields(1) [OF _ ip a] inv by blast
    moreover have "m_advance_state st + 1 \<le> sint acc"
      using nr by (auto simp: rewinds_def ip)
    ultimately show ?thesis by simp
  qed
  with inv show ?thesis by auto
qed

theorem cursor_counts_draws_witness:
  "(\<exists>vs st. reads (counted polar_dist) (counted_reset polar_reset) [[1, 2], [0, 1]]
              (random_impl (0 :: nat) (0, None) [2, 3]) = Some (vs, st) \<and>
            m_advance_state st = int (fst (m_dist st)) - 1 \<and>
            m_advance_state st = 1 \<and>
            (\<exists>v st'. access_impl (counted polar_dist) (counted_reset polar_reset) [1, 0] st
                        = Some (v, st') \<and>
                      \<not> rewinds [1, 0] st \<and> m_advance_state st < m_advance_state st'))"
proof -
  obtain vs st where
    r: "reads (counted polar_dist) (counted_reset polar_reset) [[1, 2], [0, 1]]
          (random_impl (0 :: nat) (0, None) [2, 3]) = Some (vs, st)"
    and c: "m_advance_state st = 1" and s: "m_strides st = [3, 1]"
    by (simp add: random_impl_def access_impl_def Let_def sample_def counted_def
        counted_reset_def polar_dist_def polar_reset_def full_reset_def discard_loop.simps)
  obtain v st' where
    a: "access_impl (counted polar_dist) (counted_reset polar_reset) [1, 0] st = Some (v, st')"
    using access_impl_returns [of "[1, 0]" st 3 "counted polar_dist" "counted_reset polar_reset"]
    by (auto simp: s)
  have nr: "\<not> rewinds [1, 0] st" by (simp add: rewinds_def s c)
  from cursor_counts_draws [OF r] a nr r c show ?thesis by blast
qed

text \<open>
  Claim C7 as stated fails: after the single read of index \<open>[0]\<close> on a fresh
  cache one draw has been consumed and the cursor is 0, not 1.
\<close>

theorem cursor_is_not_draw_count:
  "map_option (\<lambda>(vs, st). (vs, m_advance_state st, fst (m_dist st)))
     (reads (counted raw_dist) (counted_reset id) [[0]] (random_impl (0 :: nat) (0, ()) [2]))
   = Some ([0], 0, 1)"
  by (simp add: random_impl_def access_impl_def Let_def sample_def counted_def raw_dist_def)

section \<open>Row-major traversal\<close>

lemma upt_0_Suc: "[0..<Suc m] = 0 # map Suc [0..<m]"
  by (simp add: upt_conv_Cons map_Suc_upt del: upt_Suc)

lemma nth_draw_Suc:
  "nth_draw dist (Suc k) d e = nth_draw dist k (fst (snd (dist d e))) (snd (snd (dist d e)))"
  by (simp add: nth_draw_def)

lemma draw_n_nth_draw:
  "draw_n dist n d e = map (\<lambda>k. nth_draw dist k d e) [0..<n]"
proof (induction n arbitrary: d e)
  case 0
  then show ?case by simp
next
  case (Suc n)
  obtain v d' e' where s: "dist d e = (v, d', e')" by (cases "dist d e")
  have "map (\<lambda>k. nth_draw dist k d e) [0..<Suc n]
        = nth_draw dist 0 d e # map (\<lambda>k. nth_draw dist (Suc k) d e) [0..<n]"
    by (simp add: upt_0_Suc o_def del: upt_Suc)
  also have "\<dots> = v # map (\<lambda>k. nth_draw dist k d' e') [0..<n]"
    by (simp add: nth_draw_Suc s) (simp add: nth_draw_def s)
  finally show ?case by (simp add: s Suc.IH)
qed

lemma concat_blocks:
  "concat (map (\<lambda>i. map (\<lambda>j. i * p + j) [0..<p]) [0..<n]) = [0..<n * p]"
proof (induction n)
  case 0
  then show ?case by simp
next
  case (Suc n)
  have "map (\<lambda>j. n * p + j) [0..<p] = [n * p..<n * p + p]"
    using map_add_upt [of "n * p" p] by (simp add: add.commute)
  moreover have "[0..<n * p + p] = [0..<n * p] @ [n * p..<n * p + p]"
    by (rule upt_add_eq_append) simp
  ultimately show ?case using Suc.IH by (simp add: add.commute)
qed

lemma strides_of_Cons: "strides_of (n # ns) = prod_list ns # strides_of ns"
  by (simp add: strides_of_def upt_0_Suc o_def del: upt_Suc)

lemma m_strides_random_impl: "m_strides (random_impl engine dist shape) = strides_of shape"
proof (rule nth_equalityI)
  show l: "length (m_strides (random_impl engine dist shape)) = length (strides_of shape)"
    by (simp add: strides_of_def random_impl_def)
  show "m_strides (random_impl engine dist shape) ! i = strides_of shape ! i"
    if "i < length (m_strides (random_impl engine dist shape))" for i
  proof -
    from that l have "i < length shape" by (simp add: strides_of_def)
    then show ?thesis by (simp add: strides_of_def strides_random_impl)
  qed
qed

lemma dot_row_major:
  "prod_list (map unat shape) < 2 ^ 64 \<Longrightarrow>
   map (\<lambda>idx. dot idx (strides_of shape)) (row_major shape) = [0..<prod_list (map unat shape)]"
proof (induction shape)
  case Nil
  then show ?case by (simp add: strides_of_def)
next
  case (Cons n ns)
  let ?p = "prod_list (map unat ns)"
  show ?case
  proof (cases "unat n = 0")
    case True
    then show ?thesis by simp
  next
    case False
    then have "?p \<le> unat n * ?p" by simp
    moreover from Cons.prems have "unat n * ?p < 2 ^ 64" by simp
    ultimately have p: "?p < 2 ^ 64" by (rule le_less_trans)
    then have u: "unat (prod_list ns) = ?p" by (simp add: unat_prod_list)
    have w: "unat (word_of_nat i :: size_t) = i" if "i < unat n" for i
      using that le_unat_uoi [of i n] by simp
    have "map (\<lambda>idx. dot idx (strides_of (n # ns))) (row_major (n # ns))
          = concat (map (\<lambda>i. map (\<lambda>idx. unat (word_of_nat i :: size_t) * ?p
                                              + dot idx (strides_of ns)) (row_major ns))
                     [0..<unat n])"
      by (simp add: strides_of_Cons map_concat o_def u)
    also have "map (\<lambda>i. map (\<lambda>idx. unat (word_of_nat i :: size_t) * ?p
                                              + dot idx (strides_of ns)) (row_major ns))
                     [0..<unat n]
               = map (\<lambda>i. map (\<lambda>idx. i * ?p + dot idx (strides_of ns)) (row_major ns))
                     [0..<unat n]"
      by (rule map_cong) (simp_all add: w)
    also have "map (\<lambda>i. map (\<lambda>idx. i * ?p + dot idx (strides_of ns)) (row_major ns))
                   [0..<unat n]
               = map (\<lambda>i. map (\<lambda>j. i * ?p + j)
                                       (map (\<lambda>idx. dot idx (strides_of ns)) (row_major ns)))
                           [0..<unat n]"
      by (simp add: o_def)
    also have "map (\<lambda>idx. dot idx (strides_of ns)) (row_major ns) = [0..<?p]"
      by (rule Cons.IH [OF p])
    also have "concat (map (\<lambda>i. map (\<lambda>j. i * ?p + j) [0..<?p]) [0..<unat n])
               = [0..<unat n * ?p]" by (rule concat_blocks)
    finally show ?thesis by simp
  qed
qed

lemma served_row_major:
  assumes "prod_list (map unat shape) \<le> 2 ^ 31"
  shows "map (served (strides_of shape)) (row_major shape) = [0..<prod_list (map unat shape)]"
proof -
  let ?P = "prod_list (map unat shape)"
  have P: "?P < 2 ^ 64" using assms by (rule le_less_trans) simp
  have d: "map (\<lambda>idx. dot idx (strides_of shape)) (row_major shape) = [0..<?P]"
    by (rule dot_row_major [OF P])
  have "served (strides_of shape) idx = dot idx (strides_of shape)"
    if "idx \<in> set (row_major shape)" for idx
  proof -
    have "dot idx (strides_of shape) \<in> set [0..<?P]"
      unfolding d [symmetric] using that by simp
    then have "dot idx (strides_of shape) < 2 ^ 31" using assms by simp
    moreover have "length idx \<le> length (strides_of shape)"
      using row_major_length [OF that] by (simp add: strides_of_def)
    ultimately show ?thesis
      using inner_product_dot [of idx "strides_of shape" 0]
      by (simp add: served_def sint_small)
  qed
  then have "map (served (strides_of shape)) (row_major shape)
             = map (\<lambda>idx. dot idx (strides_of shape)) (row_major shape)"
    by (intro map_cong) simp_all
  with d show ?thesis by simp
qed

lemma sequential_traversal:
  assumes wb: "well_behaved dist reset d0"
      and small: "prod_list (map unat shape) \<le> 2 ^ 31"
  shows "\<exists>st. reads dist reset (row_major shape) (random_impl engine d0 shape)
                = Some (draw_n dist (prod_list (map unat shape)) d0 engine, st)"
proof -
  from reads_fresh [OF wb row_major_ranks, where engine = engine] obtain st where
    r: "reads dist reset (row_major shape) (random_impl engine d0 shape)
         = Some (map (\<lambda>i. nth_draw dist (served (m_strides (random_impl engine d0 shape)) i)
                            d0 engine) (row_major shape), st)" by blast
  have "map (\<lambda>i. nth_draw dist (served (strides_of shape) i) d0 engine) (row_major shape)
        = map (\<lambda>k. nth_draw dist k d0 engine) (map (served (strides_of shape)) (row_major shape))"
    by (simp add: o_def)
  also have "\<dots> = draw_n dist (prod_list (map unat shape)) d0 engine"
    by (simp only: served_row_major [OF small] draw_n_nth_draw)
  finally show ?thesis using r by (simp add: m_strides_random_impl)
qed

lemma row_major_single: "row_major [n] = map (\<lambda>i. [word_of_nat i]) [0..<unat n]"
  by (simp add: o_def)

lemma raw_advance: "advance raw_dist n ((), e) = ((), e + n)"
  by (induction n arbitrary: e) (simp_all add: raw_dist_def)

lemma raw_nth_draw: "nth_draw raw_dist k () e = e + k"
  by (simp add: nth_draw_def raw_advance) (simp add: raw_dist_def)

text \<open>
  Claim C3.  Reading every valid index once in row-major order should give the
  samples drawn straight from a fresh copy of the engine.  Lemma
  \<open>sequential_traversal\<close> shows it for every shape of at most \<open>2^31\<close>
  elements.  For the shape \<open>[2^31 + 1]\<close> it fails: the last index, at linear
  position \<open>2^31\<close>, wraps to a negative \<^verbatim>\<open>int\<close> in the inner product, the cache
  rewinds and serves draw 0, where the fresh stream gives draw \<open>2^31\<close>.  The
  distribution \<open>raw_dist\<close> returns the raw position it consumes, which makes
  the draw number visible.
\<close>

theorem sequential_traversal_int_overflow:
  "\<exists>vs st. reads raw_dist id (row_major [2147483649]) (random_impl 0 () [2147483649])
             = Some (vs, st) \<and>
           vs ! 2147483648 = 0 \<and>
           draw_n raw_dist 2147483649 () 0 ! 2147483648 = 2147483648"
proof -
  let ?n = "2147483649 :: size_t" and ?k = "2147483648 :: nat"
  let ?f = "\<lambda>i. nth_draw raw_dist (served (m_strides (random_impl (0 :: nat) () [?n])) i) () 0"
  have wb: "well_behaved raw_dist id ()" by (simp add: well_behaved_def)
  from reads_fresh [OF wb row_major_ranks, where engine = "0 :: nat" and shape = "[?n]"] obtain st where
    r: "reads raw_dist id (row_major [?n]) (random_impl 0 () [?n])
          = Some (map ?f (row_major [?n]), st)" by blast
  have k: "?k < unat ?n" by simp
  have s: "m_strides (random_impl (0 :: nat) () [?n]) = [1]"
    by (simp add: random_impl_def)
  have "map ?f (row_major [?n]) ! ?k = ?f [word_of_nat ?k]"
    unfolding row_major_single using k by (simp only: nth_map length_map length_upt nth_upt) simp
  also have "\<dots> = 0"
    unfolding s by (simp add: raw_nth_draw served_def)
  finally have v: "map ?f (row_major [?n]) ! ?k = 0" .
  have "draw_n raw_dist 2147483649 () 0 ! ?k = nth_draw raw_dist ?k () 0"
    unfolding draw_n_nth_draw by (simp only: nth_map length_upt nth_upt) simp
  then have d: "draw_n raw_dist 2147483649 () 0 ! ?k = ?k" by (simp add: raw_nth_draw)
  from r v d show ?thesis by blast
qed

lemma backward_jump_small:
  assumes wb: "well_behaved dist reset d0"
      and small: "prod_list (map unat shape) \<le> 2 ^ 31"
      and jk: "j < k" and k: "k < length (row_major shape)"
  shows "\<exists>st. reads dist reset [row_major shape ! k, row_major shape ! j]
                (random_impl engine d0 shape)
              = Some ([nth_draw dist k d0 engine, nth_draw dist j d0 engine], st) \<and>
              nth_draw dist j d0 engine = draw_n dist (prod_list (map unat shape)) d0 engine ! j"
proof -
  let ?rm = "row_major shape" and ?P = "prod_list (map unat shape)"
  have m: "map (served (strides_of shape)) ?rm = [0..<?P]"
    by (rule served_row_major [OF small])
  then have len: "length ?rm = ?P" by (metis length_map length_upt diff_zero)
  have pos: "served (strides_of shape) (?rm ! i) = i" if "i < length ?rm" for i
  proof -
    have "served (strides_of shape) (?rm ! i) = map (served (strides_of shape)) ?rm ! i"
      using that by simp
    also have "\<dots> = i" unfolding m using that len by simp
    finally show ?thesis .
  qed
  have j: "j < length ?rm" using jk k by simp
  have "list_all (\<lambda>i. length i \<le> length shape) [?rm ! k, ?rm ! j]"
    using k j row_major_length [of _ shape] by simp
  from reads_fresh [OF wb this, where engine = engine] obtain st where
    "reads dist reset [?rm ! k, ?rm ! j] (random_impl engine d0 shape)
       = Some ([nth_draw dist k d0 engine, nth_draw dist j d0 engine], st)"
    by (auto simp: m_strides_random_impl pos [OF k] pos [OF j])
  moreover have "draw_n dist ?P d0 engine ! j = nth_draw dist j d0 engine"
    unfolding draw_n_nth_draw using j len by simp
  ultimately show ?thesis by auto
qed

text \<open>
  Claim C4.  Reading the index at linear position \<open>k\<close> and then the index at
  position \<open>j < k\<close> on one cache should return, for the second read, draw
  \<open>j\<close> of a stream started afresh from the same engine and distribution.
  Lemma \<open>backward_jump_small\<close> shows it for every shape of at most \<open>2^31\<close>
  elements.  For the shape \<open>[2^32 + 10]\<close> with \<open>k = 2^32 + 5\<close> and
  \<open>j = 2^31 + 3\<close> it fails: the \<^verbatim>\<open>int\<close> accumulator of the inner product
  turns \<open>k\<close> into 5 and \<open>j\<close> into a negative number, so the first read
  serves draw 5 and the second read rewinds and serves draw 0, where the
  fresh stream has draw \<open>2^31 + 3\<close>.  This is the defect of claim C3 seen on
  a backward jump.
\<close>

theorem backward_jump_int_overflow:
  "\<exists>st. row_major [4294967306] ! 4294967301 = [4294967301] \<and>
        row_major [4294967306] ! 2147483651 = [2147483651] \<and>
        reads raw_dist id [row_major [4294967306] ! 4294967301, row_major [4294967306] ! 2147483651]
          (random_impl 0 () [4294967306]) = Some ([5, 0], st) \<and>
        draw_n raw_dist 4294967306 () 0 ! 2147483651 = 2147483651"
proof -
  let ?n = "4294967306 :: size_t" and ?k = "4294967301 :: nat" and ?j = "2147483651 :: nat"
  let ?f = "\<lambda>i. nth_draw raw_dist (served (m_strides (random_impl (0 :: nat) () [?n])) i) () 0"
  have wb: "well_behaved raw_dist id ()" by (simp add: well_behaved_def)
  have k: "?k < unat ?n" and j: "?j < unat ?n" by simp_all
  have rk: "row_major [?n] ! ?k = [4294967301]"
    unfolding row_major_single using k by (simp only: nth_map length_upt nth_upt) simp
  have rj: "row_major [?n] ! ?j = [2147483651]"
    unfolding row_major_single using j by (simp only: nth_map length_upt nth_upt) simp
  have s: "m_strides (random_impl (0 :: nat) () [?n]) = [1]"
    by (simp add: random_impl_def)
  have "list_all (\<lambda>i. length i \<le> length [?n]) [[4294967301], [2147483651 :: size_t]]" by simp
  from reads_fresh [OF wb this, where engine = "0 :: nat"] obtain st where
    "reads raw_dist id [[4294967301], [2147483651]] (random_impl 0 () [?n])
       = Some (map ?f [[4294967301], [2147483651]], st)" by blast
  moreover have "?f [4294967301] = 5" unfolding s by (simp add: raw_nth_draw served_def)
  moreover have "?f [2147483651] = 0" unfolding s by (simp add: raw_nth_draw served_def)
  moreover have "draw_n raw_dist 4294967306 () 0 ! ?j = nth_draw raw_dist ?j () 0"
    unfolding draw_n_nth_draw by (simp only: nth_map length_upt nth_upt) simp
  then have "draw_n raw_dist 4294967306 () 0 ! ?j = ?j" by (simp add: raw_nth_draw)
  ultimately show ?thesis using rk rj by simp
qed

section \<open>Two arrays on one shared engine\<close>

text \<open>
  Claim C5.  Two arrays built one after the other on the same engine should
  never draw from the same raw positions.  The factory advances the shared
  engine by one raw step per element, so this fails for every distribution
  that consumes more than one raw step per sample: with \<open>two_raw_dist\<close> and
  the shape \<open>[2]\<close> twice, the second array starts at raw position 2, and
  element \<open>[1]\<close> of the first array and element \<open>[0]\<close> of the second both
  consume the raw positions 2 and 3.
\<close>

theorem shared_stream_overlap:
  "(case make_random_xgenerator Suc () (0 :: nat) [2] of
      (f1, e1) \<Rightarrow>
        (case make_random_xgenerator Suc () e1 [2] of
           (f2, e2) \<Rightarrow>
             e1 = 2 \<and> e2 = 4 \<and>
             map_option fst (access_impl two_raw_dist id [1] (m_f f1)) = Some (2, 3) \<and>
             map_option fst (access_impl two_raw_dist id [0] (m_f f2)) = Some (2, 3)))"
  by (simp add: make_random_xgenerator_def make_xgenerator_def discard_def random_impl_def
      access_impl_def Let_def sample_def two_raw_dist_def full_reset_def discard_loop.simps)

text \<open>
  With a distribution that consumes exactly one raw step per sample the slices
  are disjoint: every value read from the first array comes from a raw
  position before the second array's start.
\<close>

lemma served_valid_less:
  assumes "prod_list (map unat shape) \<le> 2 ^ 31" and "idx \<in> set (row_major shape)"
  shows "served (strides_of shape) idx < prod_list (map unat shape)"
proof -
  have "served (strides_of shape) idx \<in> set (map (served (strides_of shape)) (row_major shape))"
    using assms(2) by simp
  then show ?thesis unfolding served_row_major [OF assms(1)] by simp
qed

lemma one_raw_step_disjoint:
  assumes small: "prod_list (map unat shape1) \<le> 2 ^ 31"
      and i1: "set idxs1 \<subseteq> set (row_major shape1)"
      and i2: "list_all (\<lambda>i. length i \<le> length shape2) idxs2"
      and m1: "make_random_xgenerator Suc () (e0 :: nat) shape1 = (f1, e1)"
      and m2: "make_random_xgenerator Suc () e1 shape2 = (f2, e2)"
  shows "\<exists>vs1 st1 vs2 st2.
           reads raw_dist id idxs1 (m_f f1) = Some (vs1, st1) \<and>
           reads raw_dist id idxs2 (m_f f2) = Some (vs2, st2) \<and>
           list_all (\<lambda>v. e0 \<le> v \<and> v < e1) vs1 \<and> list_all (\<lambda>v. e1 \<le> v) vs2"
proof -
  let ?P = "prod_list (map unat shape1)"
  have wb: "well_behaved raw_dist id ()" by (simp add: well_behaved_def)
  have f1: "m_f f1 = random_impl e0 () shape1" and e1: "e1 = e0 + ?P"
    using m1 small by (auto simp: factory_result)
  have f2: "m_f f2 = random_impl e1 () shape2"
    using m2 by (auto simp: factory_result)
  have "list_all (\<lambda>i. length i \<le> length shape1) idxs1"
    using i1 row_major_length by (fastforce simp: list_all_iff)
  from reads_fresh [OF wb this, where engine = e0] obtain st1 where
    r1: "reads raw_dist id idxs1 (m_f f1)
          = Some (map (\<lambda>i. e0 + served (strides_of shape1) i) idxs1, st1)"
    by (auto simp: f1 raw_nth_draw m_strides_random_impl)
  from reads_fresh [OF wb i2, where engine = e1] obtain st2 where
    r2: "reads raw_dist id idxs2 (m_f f2)
          = Some (map (\<lambda>i. e1 + served (strides_of shape2) i) idxs2, st2)"
    by (auto simp: f2 raw_nth_draw m_strides_random_impl)
  have "list_all (\<lambda>v. e0 \<le> v \<and> v < e1) (map (\<lambda>i. e0 + served (strides_of shape1) i) idxs1)"
    using i1 served_valid_less [OF small] by (auto simp: list_all_iff e1)
  moreover have "list_all (\<lambda>v. e1 \<le> v) (map (\<lambda>i. e1 + served (strides_of shape2) i) idxs2)"
    by (simp add: list_all_iff)
  ultimately show ?thesis using r1 r2 by blast
qed

end
